theory Spec2Isabelle
  imports Complex_Main
begin

text \<open>
  The numeric core of the time-series correlation panel: the sliding Pearson correlation
  \<^verbatim>\<open>slidingCorrelation\<close>, the neighbour-averaging smoother \<^verbatim>\<open>smoothSeries\<close> and the
  rolling z-score of regression residuals \<^verbatim>\<open>computeCointegrationZScore\<close>, embedded as
  functions on lists of JavaScript numbers. A \<^verbatim>\<open>number | null\<close> is a \<open>jsnum option\<close>
  whose \<open>None\<close> is \<^verbatim>\<open>null\<close>, the undefined marker of the outputs.
\<close>

section \<open>JavaScript numbers\<close>

text \<open>
  The source computes on JavaScript numbers. A number is a finite value, one of the two
  infinities, or NaN. The non-finite cases follow IEEE 754 as ECMAScript specifies them.
  Finite arithmetic is taken as exact arithmetic on the reals: rounding, overflow to an
  infinity and the sign of zero are not part of this model. Double precision agrees with
  it wherever every intermediate result is representable, as on integers of magnitude at
  most \<open>2 ^ 53\<close> and on small dyadic fractions. The theorems of the last section hold of
  the double-precision computation as well: each is stated for inputs on which every
  intermediate result is representable, or states a property that rounding does not
  touch (a length, an undefined position, the symmetry of a product, \<open>x / x = 1\<close>).
\<close>

datatype jsnum = Fin real | PosInf | NegInf | NaN

fun isFinite :: "jsnum \<Rightarrow> bool" where
  "isFinite (Fin r) = True"
| "isFinite PosInf = False"
| "isFinite NegInf = False"
| "isFinite NaN = False"

text \<open>Unary minus.\<close>

fun js_neg :: "jsnum \<Rightarrow> jsnum" where
  "js_neg (Fin r) = Fin (- r)"
| "js_neg PosInf = NegInf"
| "js_neg NegInf = PosInf"
| "js_neg NaN = NaN"

text \<open>\<^verbatim>\<open>a + b\<close>: opposite infinities give NaN.\<close>

fun js_add :: "jsnum \<Rightarrow> jsnum \<Rightarrow> jsnum" where
  "js_add (Fin a) (Fin b) = Fin (a + b)"
| "js_add (Fin a) PosInf = PosInf"
| "js_add (Fin a) NegInf = NegInf"
| "js_add PosInf (Fin b) = PosInf"
| "js_add PosInf PosInf = PosInf"
| "js_add PosInf NegInf = NaN"
| "js_add NegInf (Fin b) = NegInf"
| "js_add NegInf PosInf = NaN"
| "js_add NegInf NegInf = NegInf"
| "js_add NaN b = NaN"
| "js_add a NaN = NaN"

text \<open>\<^verbatim>\<open>a - b\<close>.\<close>

definition js_sub :: "jsnum \<Rightarrow> jsnum \<Rightarrow> jsnum" where
  "js_sub a b = js_add a (js_neg b)"

text \<open>The sign of a number that is not NaN, with zero counted as positive.\<close>

fun js_negative :: "jsnum \<Rightarrow> bool" where
  "js_negative (Fin r) = (r < 0)"
| "js_negative PosInf = False"
| "js_negative NegInf = True"
| "js_negative NaN = False"

definition signed_inf :: "bool \<Rightarrow> jsnum" where
  "signed_inf negative = (if negative then NegInf else PosInf)"

text \<open>\<^verbatim>\<open>a * b\<close>: an infinity times zero is NaN.\<close>

fun js_mul :: "jsnum \<Rightarrow> jsnum \<Rightarrow> jsnum" where
  "js_mul NaN b = NaN"
| "js_mul a NaN = NaN"
| "js_mul (Fin a) (Fin b) = Fin (a * b)"
| "js_mul (Fin a) b = (if a = 0 then NaN else signed_inf ((a < 0) \<noteq> js_negative b))"
| "js_mul a (Fin b) = (if b = 0 then NaN else signed_inf (js_negative a \<noteq> (b < 0)))"
| "js_mul a b = signed_inf (js_negative a \<noteq> js_negative b)"

text \<open>
  \<^verbatim>\<open>a / b\<close>: zero by zero and infinity by infinity are NaN; a finite number by an
  infinity is zero; a nonzero number by zero is an infinity (taken with the sign of the
  numerator, since zero carries no sign here).
\<close>

fun js_div :: "jsnum \<Rightarrow> jsnum \<Rightarrow> jsnum" where
  "js_div NaN b = NaN"
| "js_div a NaN = NaN"
| "js_div (Fin a) (Fin b) =
     (if b \<noteq> 0 then Fin (a / b) else if a = 0 then NaN else signed_inf (a < 0))"
| "js_div (Fin a) b = Fin 0"
| "js_div a (Fin b) = signed_inf (js_negative a \<noteq> (b < 0))"
| "js_div a b = NaN"

text \<open>
  \<^verbatim>\<open>a < b\<close>, \<^verbatim>\<open>a === b\<close>, \<^verbatim>\<open>a <= b\<close> and \<^verbatim>\<open>a >= b\<close>:
  every comparison with NaN is false.
\<close>

fun js_lt :: "jsnum \<Rightarrow> jsnum \<Rightarrow> bool" where
  "js_lt NaN b = False"
| "js_lt a NaN = False"
| "js_lt (Fin a) (Fin b) = (a < b)"
| "js_lt a PosInf = (a \<noteq> PosInf)"
| "js_lt NegInf b = (b \<noteq> NegInf)"
| "js_lt a b = False"

fun js_eq :: "jsnum \<Rightarrow> jsnum \<Rightarrow> bool" where
  "js_eq NaN b = False"
| "js_eq a NaN = False"
| "js_eq a b = (a = b)"

definition js_le :: "jsnum \<Rightarrow> jsnum \<Rightarrow> bool" where
  "js_le a b = (js_lt a b \<or> js_eq a b)"

definition js_ge :: "jsnum \<Rightarrow> jsnum \<Rightarrow> bool" where
  "js_ge a b = js_le b a"

text \<open>\<^verbatim>\<open>Math.floor\<close>, \<^verbatim>\<open>Math.max\<close> of two numbers, \<^verbatim>\<open>Math.sqrt\<close>
  and \<^verbatim>\<open>Math.pow(x, 2)\<close> (the only exponent the source uses).\<close>

fun Math_floor :: "jsnum \<Rightarrow> jsnum" where
  "Math_floor (Fin r) = Fin (of_int \<lfloor>r\<rfloor>)"
| "Math_floor a = a"

definition Math_max :: "jsnum \<Rightarrow> jsnum \<Rightarrow> jsnum" where
  "Math_max a b = (if a = NaN \<or> b = NaN then NaN else if js_lt a b then b else a)"

fun Math_sqrt :: "jsnum \<Rightarrow> jsnum" where
  "Math_sqrt (Fin r) = (if r < 0 then NaN else Fin (sqrt r))"
| "Math_sqrt PosInf = PosInf"
| "Math_sqrt NegInf = NaN"
| "Math_sqrt NaN = NaN"

fun Math_pow2 :: "jsnum \<Rightarrow> jsnum" where
  "Math_pow2 (Fin r) = Fin (r\<^sup>2)"
| "Math_pow2 PosInf = PosInf"
| "Math_pow2 NegInf = PosInf"
| "Math_pow2 NaN = NaN"

section \<open>Arrays\<close>

text \<open>
  \<^verbatim>\<open>xs[i]\<close> for a loop index: \<open>None\<close> is JavaScript's \<^verbatim>\<open>undefined\<close>, the result
  of reading outside the array.
\<close>

definition array_get :: "'a list \<Rightarrow> nat \<Rightarrow> 'a option" where
  "array_get xs i = (if i < length xs then Some (xs ! i) else None)"

text \<open>
  \<^verbatim>\<open>xs[k]\<close> for a number \<open>k\<close>: only a non-negative integer below the length names an
  element.
\<close>

definition array_get_num :: "'a list \<Rightarrow> jsnum \<Rightarrow> 'a option" where
  "array_get_num xs k =
     (case k of
        Fin r \<Rightarrow> if 0 \<le> r \<and> r = of_int \<lfloor>r\<rfloor> then array_get xs (nat \<lfloor>r\<rfloor>) else None
      | _ \<Rightarrow> None)"

text \<open>\<^verbatim>\<open>undefined\<close> in arithmetic is NaN.\<close>

definition ToNumber :: "jsnum option \<Rightarrow> jsnum" where
  "ToNumber v = (case v of None \<Rightarrow> NaN | Some x \<Rightarrow> x)"

text \<open>
  \<^verbatim>\<open>Array.prototype.slice(start, end)\<close>: each bound is converted by ToIntegerOrInfinity
  (NaN becomes 0, a fraction is truncated towards zero), a negative bound counts from the
  end, and both are clamped to the array.
\<close>

fun ToIntegerOrInfinity :: "jsnum \<Rightarrow> jsnum" where
  "ToIntegerOrInfinity NaN = Fin 0"
| "ToIntegerOrInfinity (Fin r) = Fin (of_int (if 0 \<le> r then \<lfloor>r\<rfloor> else \<lceil>r\<rceil>))"
| "ToIntegerOrInfinity a = a"

definition slice_bound :: "nat \<Rightarrow> jsnum \<Rightarrow> nat" where
  "slice_bound len k =
     (case ToIntegerOrInfinity k of
        NegInf \<Rightarrow> 0
      | PosInf \<Rightarrow> len
      | Fin r \<Rightarrow> if r < 0 then nat (max (int len + \<lfloor>r\<rfloor>) 0) else min (nat \<lfloor>r\<rfloor>) len
      | NaN \<Rightarrow> 0)"

definition slice :: "'a list \<Rightarrow> jsnum \<Rightarrow> jsnum \<Rightarrow> 'a list" where
  "slice xs start finish =
     (let k = slice_bound (length xs) start;
          final = slice_bound (length xs) finish
      in take (final - k) (drop k xs))"

text \<open>\<^verbatim>\<open>xs.reduce((acc, x, idx) => f(acc, x, idx), init)\<close>, left to right.\<close>

fun reduce_from :: "('b \<Rightarrow> 'a \<Rightarrow> nat \<Rightarrow> 'b) \<Rightarrow> nat \<Rightarrow> 'a list \<Rightarrow> 'b \<Rightarrow> 'b" where
  "reduce_from f idx [] acc = acc"
| "reduce_from f idx (x # xs) acc = reduce_from f (Suc idx) xs (f acc x idx)"

definition reduce :: "('b \<Rightarrow> 'a \<Rightarrow> nat \<Rightarrow> 'b) \<Rightarrow> 'b \<Rightarrow> 'a list \<Rightarrow> 'b" where
  "reduce f init xs = reduce_from f 0 xs init"

section \<open>The sliding correlation\<close>

text \<open>
  The body of the loop of \<^verbatim>\<open>slidingCorrelation\<close> once the two slices are taken:
  means, covariance and population standard deviations, each divided by the window.
\<close>

definition windowCorrelation :: "jsnum list \<Rightarrow> jsnum list \<Rightarrow> jsnum \<Rightarrow> jsnum option" where
  "windowCorrelation sliceA sliceB safeWindow =
     (let meanA = js_div (reduce (\<lambda>a b idx. js_add a b) (Fin 0) sliceA) safeWindow;
          meanB = js_div (reduce (\<lambda>a b idx. js_add a b) (Fin 0) sliceB) safeWindow;
          cov = js_div
                  (reduce (\<lambda>acc aVal idx.
                       js_add acc (js_mul (js_sub aVal meanA)
                                          (js_sub (ToNumber (array_get sliceB idx)) meanB)))
                     (Fin 0) sliceA)
                  safeWindow;
          stdA = Math_sqrt
                   (js_div (reduce (\<lambda>acc aVal idx. js_add acc (Math_pow2 (js_sub aVal meanA)))
                              (Fin 0) sliceA)
                           safeWindow);
          stdB = Math_sqrt
                   (js_div (reduce (\<lambda>acc bVal idx. js_add acc (Math_pow2 (js_sub bVal meanB)))
                              (Fin 0) sliceB)
                           safeWindow)
      in if js_eq stdA (Fin 0) \<or> js_eq stdB (Fin 0) then None
         else Some (js_div cov (js_mul stdA stdB)))"

definition slidingCorrelation :: "jsnum list \<Rightarrow> jsnum list \<Rightarrow> jsnum \<Rightarrow> jsnum option list" where
  "slidingCorrelation seriesA seriesB window =
     (let safeWindow = Math_max (Math_floor window) (Fin 1);
          len = min (length seriesA) (length seriesB)
      in map (\<lambda>i.
            if js_lt (Fin (real i)) safeWindow then None
            else windowCorrelation
                   (slice seriesA (js_sub (Fin (real i)) safeWindow) (Fin (real i)))
                   (slice seriesB (js_sub (Fin (real i)) safeWindow) (Fin (real i)))
                   safeWindow)
           [0..<len])"

section \<open>The neighbour smoother\<close>

text \<open>
  The inner loop of \<^verbatim>\<open>smoothSeries\<close>:
  \<^verbatim>\<open>for (let offset = -windowRadius; offset <= windowRadius; offset++)\<close>.
  The loop variable is a number, so the loop need not end; \<open>None\<close> is the run that
  never leaves the loop. The result is the pair \<^verbatim>\<open>(sum, count)\<close> at the exit
  (\<open>sumAcc\<close> is the source's \<^verbatim>\<open>sum\<close>). The counter is exact here; in double precision
  \<^verbatim>\<open>offset++\<close> is exact as long as the radius is below \<open>2 ^ 53\<close>, and beyond that the
  counter of the source stops advancing.
\<close>

partial_function (option) smoothLoop ::
  "jsnum option list \<Rightarrow> nat \<Rightarrow> jsnum \<Rightarrow> jsnum \<Rightarrow> jsnum \<Rightarrow> nat \<Rightarrow> (jsnum \<times> nat) option"
where
  "smoothLoop values idx windowRadius offset sumAcc count =
     (if js_le offset windowRadius then
        (let neighborIndex = js_add (Fin (real idx)) offset in
         if js_lt neighborIndex (Fin 0) \<or> js_ge neighborIndex (Fin (real (length values)))
         then smoothLoop values idx windowRadius (js_add offset (Fin 1)) sumAcc count
         else
           (case array_get_num values neighborIndex of
              Some (Some neighborValue) \<Rightarrow>
                if isFinite neighborValue
                then smoothLoop values idx windowRadius (js_add offset (Fin 1))
                       (js_add sumAcc neighborValue) (Suc count)
                else smoothLoop values idx windowRadius (js_add offset (Fin 1)) sumAcc count
            | _ \<Rightarrow> smoothLoop values idx windowRadius (js_add offset (Fin 1)) sumAcc count))
      else Some (sumAcc, count))"

text \<open>The callback of \<^verbatim>\<open>values.map\<close>; \<open>None\<close> when its loop does not end.\<close>

definition smoothAt :: "jsnum option list \<Rightarrow> jsnum \<Rightarrow> nat \<Rightarrow> jsnum option option" where
  "smoothAt values windowRadius idx =
     (case values ! idx of
        None \<Rightarrow> Some None
      | Some v \<Rightarrow>
          (case smoothLoop values idx windowRadius (js_neg windowRadius) (Fin 0) 0 of
             None \<Rightarrow> None
           | Some (sumAcc, count) \<Rightarrow>
               Some (if 0 < count then Some (js_div sumAcc (Fin (real count))) else None)))"

text \<open>
  \<^verbatim>\<open>smoothSeries\<close>. The callbacks run in index order and the array is returned once all
  of them have returned: \<open>those\<close> is \<open>None\<close> as soon as one callback is.
\<close>

definition smoothSeries :: "jsnum option list \<Rightarrow> jsnum \<Rightarrow> jsnum option list option" where
  "smoothSeries values radius =
     (let windowRadius = Math_max (Math_floor radius) (Fin 0)
      in if js_eq windowRadius (Fin 0) then Some values
         else those (map (smoothAt values windowRadius) [0..<length values]))"

section \<open>The cointegration z-score\<close>

record regression =
  alpha :: jsnum
  beta :: jsnum
  valid :: bool

text \<open>\<^verbatim>\<open>isFiniteNumber\<close>; the elements of a \<^verbatim>\<open>number[]\<close> are numbers already.\<close>

definition isFiniteNumber :: "jsnum \<Rightarrow> bool" where
  "isFiniteNumber v = isFinite v"

text \<open>The pairs \<^verbatim>\<open>{a, b}\<close> that the first loop of \<^verbatim>\<open>performLinearRegression\<close> keeps.\<close>

definition finitePairs :: "jsnum list \<Rightarrow> jsnum list \<Rightarrow> (jsnum \<times> jsnum) list" where
  "finitePairs seriesA seriesB =
     filter (\<lambda>(a, b). \<not> (\<not> isFiniteNumber a \<or> \<not> isFiniteNumber b))
       (map (\<lambda>i. (seriesA ! i, seriesB ! i)) [0..<min (length seriesA) (length seriesB)])"

text \<open>The four running sums \<^verbatim>\<open>(sumX, sumY, sumXY, sumXX)\<close> of the second loop.\<close>

fun regressionSums ::
  "(jsnum \<times> jsnum) list \<Rightarrow> jsnum \<times> jsnum \<times> jsnum \<times> jsnum \<Rightarrow> jsnum \<times> jsnum \<times> jsnum \<times> jsnum"
where
  "regressionSums [] acc = acc"
| "regressionSums ((a, b) # pairs) (sumX, sumY, sumXY, sumXX) =
     regressionSums pairs
       (js_add sumX b, js_add sumY a, js_add sumXY (js_mul a b), js_add sumXX (js_mul b b))"

definition performLinearRegression :: "jsnum list \<Rightarrow> jsnum list \<Rightarrow> regression" where
  "performLinearRegression seriesA seriesB =
     (let pairs = finitePairs seriesA seriesB
      in if length pairs < 2 then \<lparr>alpha = Fin 0, beta = Fin 0, valid = False\<rparr>
         else
           (let n = Fin (real (length pairs));
                (sumX, sumY, sumXY, sumXX) = regressionSums pairs (Fin 0, Fin 0, Fin 0, Fin 0);
                denominator = js_sub (js_mul n sumXX) (js_mul sumX sumX)
            in if js_eq denominator (Fin 0)
               then \<lparr>alpha = js_div sumY n, beta = Fin 0, valid = True\<rparr>
               else
                 (let beta = js_div (js_sub (js_mul n sumXY) (js_mul sumX sumY)) denominator;
                      alpha = js_div (js_sub sumY (js_mul beta sumX)) n
                  in \<lparr>alpha = alpha, beta = beta, valid = True\<rparr>)))"

text \<open>
  The residual array after the first loop of \<^verbatim>\<open>computeCointegrationZScore\<close>: positions
  with a non-finite input keep the \<^verbatim>\<open>null\<close> the array was filled with.
\<close>

definition residualsOf :: "jsnum list \<Rightarrow> jsnum list \<Rightarrow> regression \<Rightarrow> jsnum option list" where
  "residualsOf seriesA seriesB reg =
     map (\<lambda>i.
           (let a = seriesA ! i; b = seriesB ! i
            in if \<not> isFiniteNumber a \<or> \<not> isFiniteNumber b then None
               else Some (js_sub a (js_add (alpha reg) (js_mul (beta reg) b)))))
       [0..<min (length seriesA) (length seriesB)]"

text \<open>
  The loop \<^verbatim>\<open>for (let idx = start; idx <= i; idx++)\<close> that collects the finite
  residuals of the trailing window into \<^verbatim>\<open>slice\<close>. Reading outside the array gives
  \<^verbatim>\<open>undefined\<close>, which is not finite and is skipped.
\<close>

partial_function (option) collectLoop ::
  "jsnum option list \<Rightarrow> nat \<Rightarrow> jsnum \<Rightarrow> jsnum list \<Rightarrow> jsnum list option"
where
  "collectLoop residuals i idx acc =
     (if js_le idx (Fin (real i)) then
        (case array_get_num residuals idx of
           Some (Some v) \<Rightarrow>
             if isFinite v
             then collectLoop residuals i (js_add idx (Fin 1)) (acc @ [v])
             else collectLoop residuals i (js_add idx (Fin 1)) acc
         | _ \<Rightarrow> collectLoop residuals i (js_add idx (Fin 1)) acc)
      else Some acc)"

text \<open>
  The end of the body of the z-score loop, once the finite residuals of the window are
  collected: population mean and standard deviation of \<^verbatim>\<open>slice\<close>, then the score of
  the current residual; \<open>None\<close> is \<^verbatim>\<open>null\<close>.
\<close>

definition windowZScore :: "jsnum \<Rightarrow> jsnum list \<Rightarrow> jsnum option" where
  "windowZScore currentResidual sl =
     (if length sl < 2 then None
      else
        (let mean = js_div (reduce (\<lambda>acc v idx. js_add acc v) (Fin 0) sl)
                           (Fin (real (length sl)));
             variance =
               js_div (reduce (\<lambda>acc v idx. js_add acc (Math_pow2 (js_sub v mean))) (Fin 0) sl)
                      (Fin (real (length sl)));
             std = Math_sqrt variance
         in if \<not> isFinite std \<or> js_eq std (Fin 0) then None
            else Some (js_div (js_sub currentResidual mean) std)))"

text \<open>
  The body of the z-score loop at index \<open>i\<close>: \<open>Some None\<close> is the \<^verbatim>\<open>null\<close> written
  to \<^verbatim>\<open>zscores[i]\<close>, \<open>None\<close> a collecting loop that does not end.
\<close>

definition zscoreAt :: "jsnum option list \<Rightarrow> jsnum \<Rightarrow> nat \<Rightarrow> jsnum option option" where
  "zscoreAt residuals safeWindow i =
     (if js_lt (Fin (real i)) (js_sub safeWindow (Fin 1)) then Some None
      else
        (case residuals ! i of
           None \<Rightarrow> Some None
         | Some currentResidual \<Rightarrow>
             (let start = Math_max (Fin 0) (js_sub (Fin (real i)) (js_sub safeWindow (Fin 1)))
              in case collectLoop residuals i start [] of
                   None \<Rightarrow> None
                 | Some sl \<Rightarrow> Some (windowZScore currentResidual sl))))"

definition computeCointegrationZScore ::
  "jsnum list \<Rightarrow> jsnum list \<Rightarrow> jsnum \<Rightarrow> jsnum option list option"
where
  "computeCointegrationZScore seriesA seriesB window =
     (let len = min (length seriesA) (length seriesB);
          residuals = replicate len None
      in if len = 0 then Some residuals
         else
           (let regression = performLinearRegression seriesA seriesB
            in if \<not> valid regression then Some residuals
               else
                 (let residuals = residualsOf seriesA seriesB regression;
                      safeWindow = Math_max (Math_floor window) (Fin 2)
                  in those (map (zscoreAt residuals safeWindow) [0..<len]))))"

section \<open>Arithmetic and array lemmas\<close>

lemma js_mul_commute: "js_mul a b = js_mul b a"
  by (cases a; cases b) (auto simp: signed_inf_def)

lemma Math_max_floor_cases:
  obtains (nan) "window = NaN" "Math_max (Math_floor window) (Fin (real m)) = NaN"
  | (inf) "window = PosInf" "Math_max (Math_floor window) (Fin (real m)) = PosInf"
  | (fin) k where "m \<le> k" "Math_max (Math_floor window) (Fin (real m)) = Fin (real k)"
proof (cases window)
  case (Fin r)
  show ?thesis
  proof (cases "\<lfloor>r\<rfloor> < int m")
    case True
    then have "Math_max (Math_floor window) (Fin (real m)) = Fin (real m)"
      using Fin by (simp add: Math_max_def) 
    then show ?thesis using fin[of m] by simp
  next
    case False
    then have "Math_max (Math_floor window) (Fin (real m)) = Fin (real (nat \<lfloor>r\<rfloor>))"
      using Fin by (simp add: Math_max_def)
    moreover have "m \<le> nat \<lfloor>r\<rfloor>" using False by linarith
    ultimately show ?thesis using fin by blast
  qed
next
  case PosInf
  then show ?thesis using inf by (simp add: Math_max_def)
next
  case NegInf
  then have "Math_max (Math_floor window) (Fin (real m)) = Fin (real m)"
    by (simp add: Math_max_def)
  then show ?thesis using fin[of m] by simp
next
  case NaN
  then show ?thesis using nan by (simp add: Math_max_def)
qed

lemma safeWindow_cases:
  obtains (nan) "window = NaN" "Math_max (Math_floor window) (Fin 1) = NaN"
  | (inf) "window = PosInf" "Math_max (Math_floor window) (Fin 1) = PosInf"
  | (fin) k where "1 \<le> k" "Math_max (Math_floor window) (Fin 1) = Fin (real k)"
  using Math_max_floor_cases[of window "1::nat" thesis] by simp

lemma slice_bound_nat: "slice_bound len (Fin (real j)) = min j len"
  by (simp add: slice_bound_def)

lemma slice_trailing:
  assumes "k \<le> i" "i \<le> length xs"
  shows "slice xs (js_sub (Fin (real i)) (Fin (real k))) (Fin (real i)) = map ((!) xs) [i - k..<i]"
proof -
  have h: "js_sub (Fin (real i)) (Fin (real k)) = Fin (real (i - k))"
    using assms by (simp add: js_sub_def of_nat_diff)
  have "slice xs (js_sub (Fin (real i)) (Fin (real k))) (Fin (real i)) = take k (drop (i - k) xs)"
    unfolding slice_def Let_def h slice_bound_nat using assms by simp
  also have "\<dots> = map ((!) xs) [i - k..<i]"
    using assms by (auto intro!: nth_equalityI)
  finally show ?thesis .
qed

lemma slice_NaN:
  assumes "i \<le> length xs"
  shows "slice xs (js_sub (Fin (real i)) NaN) (Fin (real i)) = take i xs"
  using assms by (simp add: slice_def js_sub_def slice_bound_def)

lemma length_slidingCorrelation:
  "length (slidingCorrelation seriesA seriesB window) = min (length seriesA) (length seriesB)"
  by (simp add: slidingCorrelation_def Let_def)

lemma reduce_from_zip:
  "length xs = length ys \<Longrightarrow> length pb = idx \<Longrightarrow>
   reduce_from (\<lambda>acc a i. F acc a (array_get (pb @ ys) i)) idx xs acc =
   foldl (\<lambda>acc (a, b). F acc a (Some b)) acc (zip xs ys)"
proof (induction xs ys arbitrary: pb idx acc rule: list_induct2)
  case Nil
  then show ?case by simp
next
  case (Cons x xs y ys)
  have "reduce_from (\<lambda>acc a i. F acc a (array_get ((pb @ [y]) @ ys) i)) (Suc idx) xs
          (F acc x (Some y)) =
        foldl (\<lambda>acc (a, b). F acc a (Some b)) (F acc x (Some y)) (zip xs ys)"
    by (rule Cons.IH) (simp add: Cons.prems)
  then show ?case using Cons.prems by (simp add: array_get_def nth_append)
qed

lemma reduce_zip:
  "length xs = length ys \<Longrightarrow>
   reduce (\<lambda>acc a i. F acc a (array_get ys i)) init xs =
   foldl (\<lambda>acc (a, b). F acc a (Some b)) init (zip xs ys)"
  using reduce_from_zip[of xs ys "[]" 0 F init] by (simp add: reduce_def)



lemma cov_foldl_swap:
  "length xs = length ys \<Longrightarrow>
   foldl (\<lambda>acc (a, b). js_add acc (js_mul (f a) (g b))) acc (zip xs ys) =
   foldl (\<lambda>acc (b, a). js_add acc (js_mul (g b) (f a))) acc (zip ys xs)"
  by (induction xs ys arbitrary: acc rule: list_induct2) (simp_all add: js_mul_commute)

lemma windowCorrelation_commute:
  assumes "length sliceA = length sliceB"
  shows "windowCorrelation sliceA sliceB w = windowCorrelation sliceB sliceA w"
proof -
  have cov: "reduce (\<lambda>acc aVal idx. js_add acc (js_mul (js_sub aVal mA)
                 (js_sub (ToNumber (array_get sliceB idx)) mB))) (Fin 0) sliceA =
             reduce (\<lambda>acc bVal idx. js_add acc (js_mul (js_sub bVal mB)
                 (js_sub (ToNumber (array_get sliceA idx)) mA))) (Fin 0) sliceB" for mA mB
    using reduce_zip[OF assms, of "\<lambda>acc a b. js_add acc (js_mul (js_sub a mA) (js_sub (ToNumber b) mB))" "Fin 0"]
      reduce_zip[OF assms[symmetric], of "\<lambda>acc b a. js_add acc (js_mul (js_sub b mB) (js_sub (ToNumber a) mA))" "Fin 0"]
      cov_foldl_swap[OF assms, of "\<lambda>a. js_sub a mA" "\<lambda>b. js_sub b mB" "Fin 0"]
    by (simp add: ToNumber_def)
  show ?thesis
    unfolding windowCorrelation_def Let_def cov
    by (simp add: js_mul_commute disj_commute)
qed

lemma slices_same_length:
  assumes "i < min (length seriesA) (length seriesB)"
    and "\<not> js_lt (Fin (real i)) (Math_max (Math_floor window) (Fin 1))"
  shows "length (slice seriesA (js_sub (Fin (real i)) (Math_max (Math_floor window) (Fin 1))) (Fin (real i))) =
         length (slice seriesB (js_sub (Fin (real i)) (Math_max (Math_floor window) (Fin 1))) (Fin (real i)))"
proof (cases window rule: safeWindow_cases)
  case nan
  then show ?thesis using assms by (simp add: slice_NaN)
next
  case inf
  then show ?thesis using assms by simp
next
  case (fin k)
  then have "k \<le> i" using assms by simp
  then show ?thesis using assms fin by (simp add: slice_trailing)
qed

section \<open>The loops whose variable is a number\<close>

lemma array_get_num_nat: "array_get_num xs (Fin (real j)) = array_get xs j"
  by (simp add: array_get_num_def)

lemma collectLoop_exit:
  "\<not> js_le idx (Fin (real i)) \<Longrightarrow> collectLoop residuals i idx acc = Some acc"
  by (subst collectLoop.simps) simp

lemma collectLoop_step:
  assumes "j \<le> i"
  shows "\<exists>acc'. collectLoop residuals i (Fin (real j)) acc =
                 collectLoop residuals i (Fin (real (Suc j))) acc' \<and>
               set acc' \<subseteq> set acc \<union> {v. Some v \<in> set residuals}"
proof -
  have le: "js_le (Fin (real j)) (Fin (real i))"
    using assms by (auto simp: js_le_def)
  have inc: "js_add (Fin (real j)) (Fin 1) = Fin (real (Suc j))"
    by (simp add: add.commute)
  have unfold: "collectLoop residuals i (Fin (real j)) acc =
        (case array_get residuals j of
           Some (Some v) \<Rightarrow>
             if isFinite v
             then collectLoop residuals i (Fin (real (Suc j))) (acc @ [v])
             else collectLoop residuals i (Fin (real (Suc j))) acc
         | _ \<Rightarrow> collectLoop residuals i (Fin (real (Suc j))) acc)"
    by (subst collectLoop.simps) (simp only: le inc array_get_num_nat if_True)
  show ?thesis
  proof (cases "array_get residuals j")
    case None
    then show ?thesis using unfold by auto
  next
    case (Some e)
    then have mem: "e \<in> set residuals"
      by (auto simp: array_get_def split: if_splits)
    show ?thesis
    proof (cases e)
      case None
      then show ?thesis using unfold Some by auto
    next
      case (Some v)
      show ?thesis
      proof (cases "isFinite v")
        case True
        then have "collectLoop residuals i (Fin (real j)) acc =
                   collectLoop residuals i (Fin (real (Suc j))) (acc @ [v])"
          using unfold \<open>array_get residuals j = Some e\<close> Some by simp
        moreover have "set (acc @ [v]) \<subseteq> set acc \<union> {v. Some v \<in> set residuals}"
          using mem Some by auto
        ultimately show ?thesis by blast
      next
        case False
        then show ?thesis using unfold \<open>array_get residuals j = Some e\<close> Some by auto
      qed
    qed
  qed
qed

lemma collectLoop_fin:
  "j \<le> Suc i \<Longrightarrow>
   \<exists>sl. collectLoop residuals i (Fin (real j)) acc = Some sl \<and>
        set sl \<subseteq> set acc \<union> {v. Some v \<in> set residuals}"
proof (induction "Suc i - j" arbitrary: j acc)
  case 0
  then have "j = Suc i" by simp
  then have "\<not> js_le (Fin (real j)) (Fin (real i))"
    by (auto simp: js_le_def)
  then show ?case by (auto simp: collectLoop_exit)
next
  case (Suc n)
  then have "j \<le> i" by simp
  from collectLoop_step[OF this, of residuals acc] obtain acc' where
    step: "collectLoop residuals i (Fin (real j)) acc =
           collectLoop residuals i (Fin (real (Suc j))) acc'"
    and sub: "set acc' \<subseteq> set acc \<union> {v. Some v \<in> set residuals}"
    by blast
  have "n = Suc i - Suc j" "Suc j \<le> Suc i" using Suc.hyps(2) \<open>j \<le> i\<close> by simp_all
  from Suc.hyps(1)[OF this, of acc'] obtain sl where
    "collectLoop residuals i (Fin (real (Suc j))) acc' = Some sl"
    "set sl \<subseteq> set acc' \<union> {v. Some v \<in> set residuals}"
    by blast
  then show ?case using step sub by auto
qed

lemma smoothLoop_exit:
  "\<not> js_le offset windowRadius \<Longrightarrow>
   smoothLoop values idx windowRadius offset sumAcc count = Some (sumAcc, count)"
  by (subst smoothLoop.simps) simp

lemma smoothLoop_step:
  assumes "z \<le> int k"
  shows "\<exists>s2 c2. smoothLoop values idx (Fin (real k)) (Fin (of_int z)) sumAcc count =
                  smoothLoop values idx (Fin (real k)) (Fin (of_int (z + 1))) s2 c2 \<and>
                count \<le> c2 \<and>
                (z = 0 \<longrightarrow> idx < length values \<longrightarrow> (\<exists>r. values ! idx = Some (Fin r)) \<longrightarrow>
                   count < c2)"
proof -
  let ?next = "smoothLoop values idx (Fin (real k)) (Fin (of_int (z + 1)))"
  let ?ni = "Fin (real idx + of_int z)"
  have le: "js_le (Fin (of_int z)) (Fin (real k))"
  proof -
    have "(of_int z :: real) \<le> of_int (int k)" using assms by (simp only: of_int_le_iff)
    then show ?thesis by (auto simp: js_le_def)
  qed
  have inc: "js_add (Fin (of_int z)) (Fin 1) = Fin (of_int (z + 1))"
    by simp
  have ni: "js_add (Fin (real idx)) (Fin (of_int z)) = ?ni"
    by simp
  have unfold: "smoothLoop values idx (Fin (real k)) (Fin (of_int z)) sumAcc count =
        (if js_lt ?ni (Fin 0) \<or> js_ge ?ni (Fin (real (length values)))
         then ?next sumAcc count
         else
           (case array_get_num values ?ni of
              Some (Some neighborValue) \<Rightarrow>
                if isFinite neighborValue
                then ?next (js_add sumAcc neighborValue) (Suc count)
                else ?next sumAcc count
            | _ \<Rightarrow> ?next sumAcc count))"
    by (subst smoothLoop.simps) (simp only: le inc ni if_True Let_def)
  show ?thesis
  proof (cases "z = 0 \<and> idx < length values \<and> (\<exists>r. values ! idx = Some (Fin r))")
    case True
    then obtain r where r: "values ! idx = Some (Fin r)" by blast
    have "\<not> (js_lt ?ni (Fin 0) \<or> js_ge ?ni (Fin (real (length values))))"
      using True by (auto simp: js_ge_def js_le_def)
    moreover have "array_get_num values ?ni = Some (Some (Fin r))"
      using True r by (simp add: array_get_num_def array_get_def)
    ultimately have "smoothLoop values idx (Fin (real k)) (Fin (of_int z)) sumAcc count =
                     ?next (js_add sumAcc (Fin r)) (Suc count)"
      using unfold by simp
    then show ?thesis by (intro exI[of _ "js_add sumAcc (Fin r)"] exI[of _ "Suc count"]) simp
  next
    case False
    have "smoothLoop values idx (Fin (real k)) (Fin (of_int z)) sumAcc count = ?next sumAcc count \<or>
          (\<exists>v. smoothLoop values idx (Fin (real k)) (Fin (of_int z)) sumAcc count =
               ?next (js_add sumAcc v) (Suc count))"
      unfolding unfold by (auto split: option.splits)
    then show ?thesis using False by (metis le_refl Suc_n_not_le_n nat_le_linear)
  qed
qed

text \<open>
  The loop of the smoother returns for a radius below \<open>2 ^ 53\<close>, and counts the centre
  when it holds a finite number. The bound is where the exact counter of \<open>smoothLoop\<close> and
  the counter of the source agree.
\<close>

lemma smoothLoop_fin:
  assumes "real k < 2 ^ 53" and "z \<le> int k + 1"
  shows "\<exists>s' c'. smoothLoop values idx (Fin (real k)) (Fin (of_int z)) sumAcc count = Some (s', c') \<and>
           count \<le> c' \<and>
           (z \<le> 0 \<longrightarrow> idx < length values \<longrightarrow> (\<exists>r. values ! idx = Some (Fin r)) \<longrightarrow>
              count < c')"
  using assms(2)
proof (induction "nat (int k + 1 - z)" arbitrary: z sumAcc count)
  case 0
  then have z: "z = int k + 1" by simp
  have "\<not> js_le (Fin (of_int z)) (Fin (real k))"
    unfolding z by (auto simp: js_le_def)
  then show ?case using z by (auto simp: smoothLoop_exit)
next
  case (Suc n)
  then have "z \<le> int k" by simp
  from smoothLoop_step[OF this, of "values" idx sumAcc count] obtain s2 c2 where
    step: "smoothLoop values idx (Fin (real k)) (Fin (of_int z)) sumAcc count =
           smoothLoop values idx (Fin (real k)) (Fin (of_int (z + 1))) s2 c2"
    and mono: "count \<le> c2"
    and centre: "z = 0 \<longrightarrow> idx < length values \<longrightarrow> (\<exists>r. values ! idx = Some (Fin r)) \<longrightarrow>
                 count < c2"
    by blast
  have "n = nat (int k + 1 - (z + 1))" "z + 1 \<le> int k + 1"
    using Suc.hyps(2) \<open>z \<le> int k\<close> by simp_all
  from Suc.hyps(1)[OF this, of s2 c2] obtain s' c' where
    res: "smoothLoop values idx (Fin (real k)) (Fin (of_int (z + 1))) s2 c2 = Some (s', c')"
    and mono': "c2 \<le> c'"
    and centre': "z + 1 \<le> 0 \<longrightarrow> idx < length values \<longrightarrow> (\<exists>r. values ! idx = Some (Fin r)) \<longrightarrow>
                  c2 < c'"
    by blast
  have "z \<le> 0 \<longrightarrow> idx < length values \<longrightarrow> (\<exists>r. values ! idx = Some (Fin r)) \<longrightarrow> count < c'"
  proof (intro impI)
    assume h: "z \<le> 0" "idx < length values" "\<exists>r. values ! idx = Some (Fin r)"
    show "count < c'"
    proof (cases "z = 0")
      case True
      then show ?thesis using centre h mono' by simp
    next
      case False
      then have "z + 1 \<le> 0" using h by simp
      then show ?thesis using centre' h mono by simp
    qed
  qed
  then show ?case using step res mono mono' by simp
qed

lemma smoothLoop_diverges:
  "smoothLoop values idx PosInf NegInf sumAcc count = None"
proof -
  have "windowRadius = PosInf \<longrightarrow> offset \<noteq> NegInf"
    if "smoothLoop values idx windowRadius offset sumAcc count = Some y"
    for windowRadius offset y
    using that
  proof (induction rule: smoothLoop.raw_induct[rotated, consumes 1])
    case (1 f "values" idx windowRadius offset sumAcc count y)
    show ?case
    proof (intro impI notI)
      assume w: "windowRadius = PosInf" and off: "offset = NegInf"
      have "f values idx PosInf NegInf sumAcc count = Some y"
        using 1(2) unfolding w off by (simp add: js_le_def)
      from 1(1)[OF this] show False by simp
    qed
  qed
  then show ?thesis by (cases "smoothLoop values idx PosInf NegInf sumAcc count") auto
qed

section \<open>Lemmas on the smoother\<close>

lemma those_Some_nth:
  "those xs = Some ys \<Longrightarrow> length ys = length xs \<and> (\<forall>i<length xs. xs ! i = Some (ys ! i))"
proof (induction xs arbitrary: ys)
  case Nil
  then show ?case by simp
next
  case (Cons x xs)
  from Cons.prems obtain y zs where x: "x = Some y" and zs: "those xs = Some zs" and ys: "ys = y # zs"
    by (auto split: option.splits)
  from Cons.IH[OF zs] show ?case using x ys by (auto simp: nth_Cons split: nat.splits)
qed

lemma those_map_total:
  "(\<And>x. x \<in> set xs \<Longrightarrow> \<exists>y. f x = Some y) \<Longrightarrow> \<exists>ys. those (map f xs) = Some ys"
proof (induction xs)
  case Nil
  then show ?case by simp
next
  case (Cons x xs)
  then obtain y ys where "f x = Some y" "those (map f xs) = Some ys"
    by (metis list.set_intros(1) list.set_intros(2))
  then show ?case by simp
qed


lemma windowRadius_cases:
  obtains (nan) "radius = NaN" "Math_max (Math_floor radius) (Fin 0) = NaN"
  | (inf) "radius = PosInf" "Math_max (Math_floor radius) (Fin 0) = PosInf"
  | (fin) k where "Math_max (Math_floor radius) (Fin 0) = Fin (real k)"
  using Math_max_floor_cases[of radius "0::nat" thesis] by simp

text \<open>
  The radii on which the loop counter of the smoother is exact in double precision too:
  the window radius is then a natural number below \<open>2 ^ 53\<close>.
\<close>

lemma windowRadius_bounded:
  assumes "js_lt (Math_floor radius) (Fin (2 ^ 53))"
  obtains k where "Math_max (Math_floor radius) (Fin 0) = Fin (real k)" and "real k < 2 ^ 53"
proof (cases radius)
  case (Fin r)
  show ?thesis
  proof (cases "\<lfloor>r\<rfloor> < 0")
    case True
    then have "Math_max (Math_floor radius) (Fin 0) = Fin (real 0)"
      using Fin by (simp add: Math_max_def)
    then show ?thesis using that[of 0] by simp
  next
    case False
    then have "Math_max (Math_floor radius) (Fin 0) = Fin (real (nat \<lfloor>r\<rfloor>))"
      using Fin by (simp add: Math_max_def)
    moreover have "real (nat \<lfloor>r\<rfloor>) < 2 ^ 53"
      using False assms Fin by simp
    ultimately show ?thesis using that by blast
  qed
next
  case PosInf
  then show ?thesis using assms by simp
next
  case NegInf
  then have "Math_max (Math_floor radius) (Fin 0) = Fin (real 0)"
    by (simp add: Math_max_def)
  then show ?thesis using that[of 0] by simp
next
  case NaN
  then show ?thesis using assms by simp
qed

lemma smoothAt_fin:
  assumes "real k < 2 ^ 53"
  shows "\<exists>r. smoothAt values (Fin (real k)) idx = Some r"
proof -
  have neg: "js_neg (Fin (real k)) = Fin (of_int (- int k))" by simp
  have "- int k \<le> int k + 1" by simp
  from smoothLoop_fin[OF assms this, of "values" idx "Fin 0" 0]
  obtain s' c' where "smoothLoop values idx (Fin (real k)) (Fin (of_int (- int k))) (Fin 0) 0 = Some (s', c')"
    by auto
  then show ?thesis unfolding smoothAt_def neg by (simp split: option.splits)
qed

lemma smoothAt_None: "values ! idx = None \<Longrightarrow> smoothAt values windowRadius idx = Some None"
  by (simp add: smoothAt_def)

lemma smoothAt_finite_centre:
  assumes "real k < 2 ^ 53" and "idx < length values" and "values ! idx = Some (Fin r)"
  shows "\<exists>v. smoothAt values (Fin (real k)) idx = Some (Some v)"
proof -
  have neg: "js_neg (Fin (real k)) = Fin (of_int (- int k))" by simp
  have "- int k \<le> int k + 1" by simp
  from smoothLoop_fin[OF assms(1) this, of "values" idx "Fin 0" 0] assms(2,3)
  obtain s' c' where "smoothLoop values idx (Fin (real k)) (Fin (of_int (- int k))) (Fin 0) 0 = Some (s', c')"
    and "0 < c'"
    by auto
  then show ?thesis unfolding smoothAt_def neg using assms by simp
qed

lemma smoothSeries_returns:
  assumes "js_lt (Math_floor radius) (Fin (2 ^ 53))"
  shows "\<exists>out. smoothSeries values radius = Some out"
proof -
  from assms obtain k where k: "Math_max (Math_floor radius) (Fin 0) = Fin (real k)"
    and bound: "real k < 2 ^ 53"
    by (rule windowRadius_bounded)
  show ?thesis
    unfolding smoothSeries_def Let_def k
    by (auto intro!: those_map_total smoothAt_fin[OF bound])
qed

lemma smoothSeries_Some:
  assumes "smoothSeries values radius = Some out"
  shows "length out = length values"
    and "i < length values \<Longrightarrow> values ! i = None \<Longrightarrow> out ! i = None"
proof -
  let ?w = "Math_max (Math_floor radius) (Fin 0)"
  have "out = values \<or> those (map (smoothAt values ?w) [0..<length values]) = Some out"
    using assms unfolding smoothSeries_def Let_def by (auto split: if_splits)
  then have both: "length out = length values \<and>
      (i < length values \<longrightarrow> values ! i = None \<longrightarrow> out ! i = None)"
  proof
    assume "out = values"
    then show ?thesis by simp
  next
    assume "those (map (smoothAt values ?w) [0..<length values]) = Some out"
    from those_Some_nth[OF this]
    have len: "length out = length values"
      and nth: "\<forall>j<length values. smoothAt values ?w j = Some (out ! j)"
      by simp_all
    show ?thesis using len nth by (auto simp: smoothAt_None)
  qed
  from both show "length out = length values" by simp
  from both show "i < length values \<Longrightarrow> values ! i = None \<Longrightarrow> out ! i = None" by simp
qed

section \<open>Lemmas on the cointegration score\<close>

lemma cointWindow_cases:
  obtains (nan) "window = NaN" "Math_max (Math_floor window) (Fin 2) = NaN"
  | (inf) "window = PosInf" "Math_max (Math_floor window) (Fin 2) = PosInf"
  | (fin) k where "2 \<le> k" "Math_max (Math_floor window) (Fin 2) = Fin (real k)"
  using Math_max_floor_cases[of window "2::nat" thesis] by simp

lemma zscoreAt_cases:
  obtains (null) "zscoreAt residuals (Math_max (Math_floor window) (Fin 2)) i = Some None"
  | (score) currentResidual sl where
      "residuals ! i = Some currentResidual"
      "set sl \<subseteq> {v. Some v \<in> set residuals}"
      "zscoreAt residuals (Math_max (Math_floor window) (Fin 2)) i =
         Some (windowZScore currentResidual sl)"
proof (cases window rule: cointWindow_cases)
  case nan
  have "collectLoop residuals i NaN [] = Some []"
    by (rule collectLoop_exit) (simp add: js_le_def)
  then have "zscoreAt residuals (Math_max (Math_floor window) (Fin 2)) i = Some None"
    unfolding nan(2) zscoreAt_def
    by (simp add: js_sub_def Math_max_def windowZScore_def split: option.splits)
  then show ?thesis by (rule null)
next
  case inf
  have "zscoreAt residuals (Math_max (Math_floor window) (Fin 2)) i = Some None"
    unfolding inf(2) zscoreAt_def by (simp add: js_sub_def)
  then show ?thesis by (rule null)
next
  case (fin k)
  let ?w = "Math_max (Math_floor window) (Fin 2)"
  have sub1: "js_sub ?w (Fin 1) = Fin (real (k - 1))"
    using fin by (simp add: js_sub_def of_nat_diff)
  show ?thesis
  proof (cases "i < k - 1 \<or> residuals ! i = None")
    case True
    then have "zscoreAt residuals ?w i = Some None"
      unfolding zscoreAt_def sub1 by auto
    then show ?thesis by (rule null)
  next
    case False
    then obtain cr where cr: "residuals ! i = Some cr" and ge: "k - 1 \<le> i" by auto
    have start: "Math_max (Fin 0) (js_sub (Fin (real i)) (Fin (real (k - 1)))) =
                 Fin (real (i - (k - 1)))"
      using ge by (simp add: js_sub_def Math_max_def of_nat_diff)
    have "i - (k - 1) \<le> Suc i" by simp
    from collectLoop_fin[OF this, of residuals "[]"] obtain sl where
      sl: "collectLoop residuals i (Fin (real (i - (k - 1)))) [] = Some sl"
      and sub: "set sl \<subseteq> {v. Some v \<in> set residuals}"
      by auto
    have "zscoreAt residuals ?w i = Some (windowZScore cr sl)"
      unfolding zscoreAt_def sub1 start using ge cr sl by simp
    then show ?thesis using cr sub score by blast
  qed
qed

lemma zscoreAt_total:
  "\<exists>r. zscoreAt residuals (Math_max (Math_floor window) (Fin 2)) i = Some r"
  by (cases residuals window i rule: zscoreAt_cases) auto

lemma computeCointegrationZScore_returns:
  "\<exists>out. computeCointegrationZScore seriesA seriesB window = Some out \<and>
         length out = min (length seriesA) (length seriesB)"
proof -
  let ?len = "min (length seriesA) (length seriesB)"
  let ?rs = "residualsOf seriesA seriesB (performLinearRegression seriesA seriesB)"
  let ?w = "Math_max (Math_floor window) (Fin 2)"
  obtain zs where zs: "those (map (zscoreAt ?rs ?w) [0..<?len]) = Some zs"
    using those_map_total[of "[0..<?len]" "zscoreAt ?rs ?w"] zscoreAt_total by blast
  from those_Some_nth[OF this] have "length zs = ?len" by simp
  then show ?thesis
    unfolding computeCointegrationZScore_def Let_def using zs by auto
qed

lemma length_finitePairs:
  "length (finitePairs seriesA seriesB) =
   length (filter (\<lambda>i. isFinite (seriesA ! i) \<and> isFinite (seriesB ! i))
             [0..<min (length seriesA) (length seriesB)])"
  by (simp add: finitePairs_def filter_map isFiniteNumber_def comp_def)

section \<open>Sums of finite numbers\<close>





section \<open>The windows of the sliding correlation\<close>

lemma slidingCorrelation_nth:
  assumes "i < min (length seriesA) (length seriesB)"
  shows "slidingCorrelation seriesA seriesB window ! i =
    (let safeWindow = Math_max (Math_floor window) (Fin 1)
     in if js_lt (Fin (real i)) safeWindow then None
        else windowCorrelation
               (slice seriesA (js_sub (Fin (real i)) safeWindow) (Fin (real i)))
               (slice seriesB (js_sub (Fin (real i)) safeWindow) (Fin (real i)))
               safeWindow)"
  using assms by (simp add: slidingCorrelation_def Let_def)

text \<open>
  For every window other than NaN the effective window \<open>W\<close> is a positive integer or
  positive infinity: an index below \<open>W\<close> is undefined, and an index from \<open>W\<close> on holds the
  correlation of the elements at the indices \<open>i - W\<close> to \<open>i - 1\<close> of both series.
\<close>

lemma slidingCorrelation_trailing_slices:
  assumes W: "W = Math_max (Math_floor window) (Fin 1)"
    and i: "i < min (length seriesA) (length seriesB)"
  shows "(js_lt (Fin (real i)) W \<longrightarrow> slidingCorrelation seriesA seriesB window ! i = None) \<and>
         (js_ge (Fin (real i)) W \<longrightarrow>
            (\<exists>k. 1 \<le> k \<and> k \<le> i \<and> W = Fin (real k) \<and>
                 slidingCorrelation seriesA seriesB window ! i =
                   windowCorrelation (map ((!) seriesA) [i - k..<i])
                                     (map ((!) seriesB) [i - k..<i]) W))"
proof (intro conjI impI)
  assume "js_lt (Fin (real i)) W"
  then show "slidingCorrelation seriesA seriesB window ! i = None"
    using slidingCorrelation_nth[OF i, of window] W by (simp add: Let_def)
next
  assume ge: "js_ge (Fin (real i)) W"
  show "\<exists>k. 1 \<le> k \<and> k \<le> i \<and> W = Fin (real k) \<and>
            slidingCorrelation seriesA seriesB window ! i =
              windowCorrelation (map ((!) seriesA) [i - k..<i]) (map ((!) seriesB) [i - k..<i]) W"
  proof (cases window rule: safeWindow_cases)
    case nan
    then show ?thesis using ge W by (simp add: js_ge_def js_le_def)
  next
    case inf
    then show ?thesis using ge W by (simp add: js_ge_def js_le_def)
  next
    case (fin k)
    then have Wk: "W = Fin (real k)" using W by simp
    have ki: "k \<le> i" using ge Wk by (auto simp: js_ge_def js_le_def)
    then have nlt: "\<not> js_lt (Fin (real i)) (Fin (real k))" by simp
    have "slidingCorrelation seriesA seriesB window ! i =
          windowCorrelation (slice seriesA (js_sub (Fin (real i)) (Fin (real k))) (Fin (real i)))
                            (slice seriesB (js_sub (Fin (real i)) (Fin (real k))) (Fin (real i)))
                            (Fin (real k))"
      using slidingCorrelation_nth[OF i, of window] nlt unfolding fin(2) Let_def by simp
    also have "\<dots> = windowCorrelation (map ((!) seriesA) [i - k..<i])
                                       (map ((!) seriesB) [i - k..<i]) (Fin (real k))"
      using i ki by (simp add: slice_trailing)
    finally show ?thesis using fin(1) ki Wk by blast
  qed
qed

text \<open>
  An evaluated instance: window 2.5 is floored to 2, and index 2 holds the correlation of
  \<open>[1, 2]\<close> and \<open>[3, 1]\<close>, which is \<open>-1\<close>.
\<close>

lemma slidingCorrelation_trailing_example:
  "slidingCorrelation [Fin 1, Fin 2, Fin 4] [Fin 3, Fin 1, Fin 2] (Fin (5 / 2)) =
   [None, None, Some (Fin (- 1))]"
proof -
  have "sqrt (1 / 4) = 1 / 2"
    by (simp add: real_sqrt_divide)
  then show ?thesis
    by (simp add: slidingCorrelation_def Math_max_def slice_def slice_bound_def js_sub_def
        windowCorrelation_def reduce_def array_get_def ToNumber_def Let_def upt_rec
        power2_eq_square)
qed

text \<open>
  With window NaN the division by the window makes every mean, covariance and deviation
  NaN, whatever the slices hold.
\<close>

lemma js_div_NaN_right: "js_div a NaN = NaN"
  by (cases a) simp_all

lemma windowCorrelation_NaN: "windowCorrelation sliceA sliceB NaN = Some NaN"
  unfolding windowCorrelation_def Let_def by (simp add: js_div_NaN_right)

lemma slidingCorrelation_NaN_window_nth:
  assumes "i < min (length seriesA) (length seriesB)"
  shows "slidingCorrelation seriesA seriesB NaN ! i = Some NaN"
  using slidingCorrelation_nth[OF assms, of NaN]
  by (simp add: Math_max_def windowCorrelation_NaN)

section \<open>Regression of a series on itself\<close>









section \<open>Claims\<close>

text \<open>
  C1. A defined position need not lie in \<open>[-1, 1]\<close>: with a NaN in the window of the first
  series, position 2 of the output is defined and holds NaN.
\<close>

theorem slidingCorrelation_NaN_in_window:
  "slidingCorrelation [NaN, Fin 1, Fin 1] [Fin 1, Fin 2, Fin 3] (Fin 2) ! 2 = Some NaN"
  by (simp add: slidingCorrelation_def Math_max_def slice_def slice_bound_def js_sub_def
      windowCorrelation_def reduce_def array_get_def ToNumber_def Let_def upt_rec)

text \<open>
  C2. With radius positive infinity and a number in the input, \<open>smoothSeries\<close> returns no
  output, hence none of the length of its input: the loop starts at negative infinity,
  which adding one does not change.
\<close>

theorem smoothSeries_no_output: "smoothSeries [Some (Fin 1), None, Some (Fin 2)] PosInf = None"
  by (simp add: smoothSeries_def Math_max_def smoothAt_def smoothLoop_diverges upt_rec)

text \<open>
  C3. With window NaN the effective window is NaN and no index compares below it: every
  position, index 0 included, is computed from the whole prefix and holds NaN, where the
  claim has it undefined.
\<close>

theorem slidingCorrelation_NaN_window:
  "slidingCorrelation [Fin 1, Fin 2] [Fin 1, Fin 2] NaN = [Some NaN, Some NaN]"
  by (simp add: slidingCorrelation_def Math_max_def windowCorrelation_NaN upt_rec)

text \<open>
  C4. A position holding a number need not stay defined: with radius 1, the one-element
  input holding NaN has no finite value in its window, the count stays 0 and the output
  position is undefined.
\<close>

theorem smoothSeries_nonfinite_centre_counterexample:
  "smoothSeries [Some NaN] (Fin 1) = Some [None]"
  by (simp add: smoothSeries_def Math_max_def smoothAt_def smoothLoop.simps js_le_def js_ge_def
      array_get_num_def array_get_def)

text \<open>
  C4, as the code has it. For every radius whose floor is below \<open>2 ^ 53\<close> (which excludes
  NaN and positive infinity), \<open>smoothSeries\<close> returns a sequence of the input's length in
  which every position that holds a finite number in the input is defined.
\<close>

theorem smoothSeries_finite_defined:
  assumes "js_lt (Math_floor radius) (Fin (2 ^ 53))"
  shows "\<exists>out. smoothSeries values radius = Some out \<and> length out = length values \<and>
           (\<forall>i<length values. (\<exists>r. values ! i = Some (Fin r)) \<longrightarrow> out ! i \<noteq> None)"
proof -
  from smoothSeries_returns[OF assms] obtain out where out: "smoothSeries values radius = Some out"
    by blast
  have len: "length out = length values" by (rule smoothSeries_Some(1)[OF out])
  from assms obtain k where k: "Math_max (Math_floor radius) (Fin 0) = Fin (real k)"
    and bound: "real k < 2 ^ 53"
    by (rule windowRadius_bounded)
  have "out ! i \<noteq> None" if i: "i < length values" and r: "values ! i = Some (Fin r)" for i r
  proof (cases "k = 0")
    case True
    then have "out = values" using out k by (simp add: smoothSeries_def)
    then show ?thesis using r by simp
  next
    case False
    then have "those (map (smoothAt values (Fin (real k))) [0..<length values]) = Some out"
      using out k by (simp add: smoothSeries_def)
    from those_Some_nth[OF this] i have "smoothAt values (Fin (real k)) i = Some (out ! i)"
      by simp
    then show ?thesis using smoothAt_finite_centre[OF bound i r] by auto
  qed
  then show ?thesis using out len by blast
qed

theorem smoothSeries_finite_defined_witness:
  "\<exists>out. smoothSeries [Some (Fin 2), None, Some NaN] (Fin 1) = Some out \<and> length out = 3 \<and>
         out ! 0 \<noteq> None"
proof -
  have h: "js_lt (Math_floor (Fin 1)) (Fin (2 ^ 53))" by simp
  from smoothSeries_finite_defined[OF h, of "[Some (Fin 2), None, Some NaN]"]
  show ?thesis by auto
qed

text \<open>
  C5. Self-correlation is not 1 at every defined position: on the series of two NaN with
  window 1, position 1 is defined and holds NaN.
\<close>

theorem self_correlation_NaN_series:
  "slidingCorrelation [NaN, NaN] [NaN, NaN] (Fin 1) ! 1 = Some NaN"
  by (simp add: slidingCorrelation_def Math_max_def slice_def slice_bound_def js_sub_def
      windowCorrelation_def reduce_def array_get_def ToNumber_def Let_def upt_rec)

text \<open>
  C6. When fewer than two index positions of the overlapping range hold finite numbers in
  both sequences, the regression is marked invalid and \<open>computeCointegrationZScore\<close>
  returns the all-undefined sequence of the overlapping length.
\<close>

theorem too_few_finite_pairs:
  assumes "length (filter (\<lambda>i. isFinite (seriesA ! i) \<and> isFinite (seriesB ! i))
                     [0..<min (length seriesA) (length seriesB)]) < 2"
  shows "\<not> valid (performLinearRegression seriesA seriesB) \<and>
         computeCointegrationZScore seriesA seriesB window =
           Some (replicate (min (length seriesA) (length seriesB)) None)"
proof -
  have "length (finitePairs seriesA seriesB) < 2"
    using assms by (simp only: length_finitePairs)
  then have "\<not> valid (performLinearRegression seriesA seriesB)"
    by (simp add: performLinearRegression_def)
  then show ?thesis by (simp add: computeCointegrationZScore_def Let_def)
qed

theorem too_few_finite_pairs_witness:
  "\<not> valid (performLinearRegression [Fin 1, NaN, Fin 3] [Fin 1, Fin 2, PosInf]) \<and>
   computeCointegrationZScore [Fin 1, NaN, Fin 3] [Fin 1, Fin 2, PosInf] (Fin 2) =
     Some [None, None, None]"
proof -
  have h: "length (filter (\<lambda>i. isFinite ([Fin 1, NaN, Fin 3] ! i) \<and> isFinite ([Fin 1, Fin 2, PosInf] ! i))
                     [0..<min (length [Fin 1, NaN, Fin 3]) (length [Fin 1, Fin 2, PosInf])]) < 2"
    by (simp add: upt_rec nth_Cons')
  show ?thesis
    using too_few_finite_pairs[OF h, of "Fin 2"] by (simp add: numeral_3_eq_3)
qed




text \<open>
  C8. With radius positive infinity the loop of \<open>smoothSeries\<close> starts at negative
  infinity, which adding one does not change: on the one-element input holding 1 the
  function never returns.
\<close>

theorem smoothSeries_infinite_radius_diverges: "smoothSeries [Some (Fin 1)] PosInf = None"
  by (simp add: smoothSeries_def Math_max_def smoothAt_def smoothLoop_diverges)

text \<open>
  C9. In every output of \<open>smoothSeries\<close>, every position that is undefined in the input
  is undefined.
\<close>

theorem smoothSeries_keeps_undefined:
  "\<forall>out. smoothSeries values radius = Some out \<longrightarrow>
      length out = length values \<and>
      (\<forall>i<length values. values ! i = None \<longrightarrow> out ! i = None)"
proof (intro conjI allI impI)
  fix out
  assume "smoothSeries values radius = Some out"
  then show "length out = length values" by (rule smoothSeries_Some(1))
next
  fix out i
  assume "smoothSeries values radius = Some out" "i < length values" "values ! i = None"
  then show "out ! i = None" by (rule smoothSeries_Some(2))
qed

theorem smoothSeries_keeps_undefined_witness:
  "\<exists>out. smoothSeries [None, Some (Fin 1), None] (Fin 1) = Some out \<and>
         length out = 3 \<and> out ! 0 = None \<and> out ! 2 = None"
proof -
  let ?V = "[None, Some (Fin 1), None]"
  have "js_lt (Math_floor (Fin 1)) (Fin (2 ^ 53))" by simp
  then obtain out where out: "smoothSeries ?V (Fin 1) = Some out"
    using smoothSeries_returns by blast
  from smoothSeries_keeps_undefined[of ?V "Fin 1"] out
  have "length out = length ?V \<and> (\<forall>i<length ?V. ?V ! i = None \<longrightarrow> out ! i = None)"
    by blast
  then have "length out = 3 \<and> out ! 0 = None \<and> out ! 2 = None" by simp
  with out show ?thesis by blast
qed

text \<open>
  C10. The sliding correlation is symmetric in its two series: for all sequences \<open>A\<close>,
  \<open>B\<close> and every window, \<open>slidingCorrelation A B window\<close> and
  \<open>slidingCorrelation B A window\<close> are the same sequence, position by position.
\<close>

theorem slidingCorrelation_symmetric:
  "slidingCorrelation seriesA seriesB window = slidingCorrelation seriesB seriesA window"
  unfolding slidingCorrelation_def Let_def
  by (rule map_cong) (auto simp: min.commute intro!: windowCorrelation_commute slices_same_length)

end
